theory Spec2Isabelle
  imports Main "HOL-Library.AList"
begin

section \<open>PaStA: the unified-diff parser of \<open>PaStA/Repository/Patch.py\<close>\<close>

text \<open>
  The module holds two classes, \<open>Hunk\<close> and \<open>Diff\<close>. \<open>Diff.parse_diff\<close> splits a text
  at line feeds and hands the lines to \<open>Diff.parse_diff_nosplit\<close>, a line-oriented scanner
  with three nested \<open>while\<close> loops that pop lines from the front of the list.

  Conventions of the embedding:
  \<^item> a Python \<open>str\<close> is a \<open>string\<close>; one \<open>char\<close> stands for one code point below 256,
    and the character classes \<open>\s\<close> and \<open>\d\<close> of the regular expressions are written out
    for that range;
  \<^item> a Python \<open>dict\<close> is an association list with distinct keys in insertion order
    (\<open>map_of\<close> reads it, \<open>AList.update\<close> replaces in place or appends), a Python
    \<open>set\<close> is a HOL set;
  \<^item> an exception is a value \<open>Inl e\<close> of the result type \<open>error + 'a\<close>;
  \<^item> the lengths and counters are Python integers that never go below zero, so they
    are natural numbers here; \<open>int()\<close> is the mathematical value of a digit string
    (the interpreter's optional limit on the number of digits is not modelled).
\<close>

subsection \<open>Exceptions\<close>

text \<open>
  The module defines no exception class. The two failures that can leave
  \<open>parse_diff_nosplit\<close> are those of the interpreter: \<open>.group(1)\<close> on the \<open>None\<close> that a
  failed \<open>match\<close> returns (AttributeError), and \<open>diff.pop(0)\<close> on an empty list
  (IndexError).
\<close>

datatype error = AttributeError | IndexError

subsection \<open>Class Hunk\<close>

record Hunk =
  insertions :: "string list"
  deletions :: "string list"
  "context" :: "string list"

text \<open>\<open>Hunk.__init__\<close>: each argument defaults to a fresh empty list.\<close>

definition Hunk_init :: "string list \<Rightarrow> string list \<Rightarrow> string list \<Rightarrow> Hunk" where
  "Hunk_init ins dels ctx = \<lparr>insertions = ins, deletions = dels, context = ctx\<rparr>"

definition Hunk_empty :: Hunk where
  "Hunk_empty = Hunk_init [] [] []"

text \<open>\<open>Hunk.merge\<close>: the three \<open>+=\<close> extend the receiver's lists; the receiver is returned
  updated.\<close>

definition merge :: "Hunk \<Rightarrow> Hunk \<Rightarrow> Hunk" where
  "merge self other =
     \<lparr>insertions = insertions self @ insertions other,
      deletions = deletions self @ deletions other,
      context = context self @ context other\<rparr>"

subsection \<open>The regular expressions of class Diff\<close>

definition newline :: char where
  "newline = CHR 0x0A"

text \<open>\<open>\s\<close> on code points below 256: the ASCII white space, the four separators
  0x1C to 0x1F, NEL and the no-break space.\<close>

definition is_space :: "char \<Rightarrow> bool" where
  "is_space c \<longleftrightarrow>
     c \<in> {CHR 0x09, CHR 0x0A, CHR 0x0B, CHR 0x0C, CHR 0x0D,
          CHR 0x1C, CHR 0x1D, CHR 0x1E, CHR 0x1F, CHR 0x20, CHR 0x85, CHR 0xA0}"

text \<open>\<open>\d\<close> on code points below 256: the ten ASCII digits.\<close>

definition is_digit :: "char \<Rightarrow> bool" where
  "is_digit c \<longleftrightarrow> c \<in> set ''0123456789''"

definition digit_val :: "char \<Rightarrow> nat" where
  "digit_val c = of_char c - 48"

text \<open>\<open>int(s)\<close> for a string of digits.\<close>

definition int_of_digits :: "string \<Rightarrow> nat" where
  "int_of_digits s = foldl (\<lambda>n c. 10 * n + digit_val c) 0 s"

text \<open>A literal at the start of the subject: the rest after it, if it is there.\<close>

fun strip_prefix :: "string \<Rightarrow> string \<Rightarrow> string option" where
  "strip_prefix [] s = Some s"
| "strip_prefix (p # ps) [] = None"
| "strip_prefix (p # ps) (c # cs) = (if p = c then strip_prefix ps cs else None)"

text \<open>\<open>.*$\<close> without the MULTILINE flag: the dot never matches a line feed, and \<open>$\<close>
  holds at the end of the subject or just before a line feed that ends it.\<close>

definition dot_star_end :: "string \<Rightarrow> bool" where
  "dot_star_end s \<longleftrightarrow> newline \<notin> set (butlast s)"

text \<open>\<open>DIFF_SELECTOR_REGEX = ^[-\+@]\<close>\<close>

definition diff_selector_match :: "string \<Rightarrow> bool" where
  "diff_selector_match x \<longleftrightarrow>
     (case x of [] \<Rightarrow> False | c # _ \<Rightarrow> c = CHR ''-'' \<or> c = CHR ''+'' \<or> c = CHR ''@'')"

text \<open>\<open>FILE_SEPARATOR_MINUS_REGEX = ^--- ([^\s]*).*$\<close>; the result is group 1.\<close>

definition file_separator_minus_match :: "string \<Rightarrow> string option" where
  "file_separator_minus_match x =
     (case strip_prefix ''--- '' x of
        None \<Rightarrow> None
      | Some r \<Rightarrow> if dot_star_end r then Some (takeWhile (\<lambda>c. \<not> is_space c) r) else None)"

text \<open>\<open>FILE_SEPARATOR_PLUS_REGEX = ^\+\+\+ ([^\s]*).*$\<close>; the result is group 1.\<close>

definition file_separator_plus_match :: "string \<Rightarrow> string option" where
  "file_separator_plus_match x =
     (case strip_prefix ''+++ '' x of
        None \<Rightarrow> None
      | Some r \<Rightarrow> if dot_star_end r then Some (takeWhile (\<lambda>c. \<not> is_space c) r) else None)"

text \<open>\<open>EXCLUDE_CC_REGEX = ^diff --cc (.+)$\<close>; only whether it matches is used.\<close>

definition exclude_cc_match :: "string \<Rightarrow> bool" where
  "exclude_cc_match x \<longleftrightarrow>
     (case strip_prefix ''diff --cc '' x of
        None \<Rightarrow> False
      | Some r \<Rightarrow> r \<noteq> [] \<and> hd r \<noteq> newline \<and> dot_star_end r)"

text \<open>\<open>\d+\<close>: the longest run of digits, which must not be empty. What follows a number
  in \<open>HUNK_REGEX\<close> is never a digit, so no shorter run can match.\<close>

definition digits1 :: "string \<Rightarrow> (string \<times> string) option" where
  "digits1 s =
     (let ds = takeWhile is_digit s
      in if ds = [] then None else Some (ds, dropWhile is_digit s))"

text \<open>\<open>(?:,(\d+))?\<close>: the group, \<open>None\<close> when the comma and its digits are absent.\<close>

definition opt_count :: "string \<Rightarrow> string option \<times> string" where
  "opt_count s =
     (case s of
        [] \<Rightarrow> (None, s)
      | c # t \<Rightarrow>
          if c = CHR '','' then
            (case digits1 t of None \<Rightarrow> (None, s) | Some (ds, r) \<Rightarrow> (Some ds, r))
          else (None, s))"

text \<open>\<open>[ ]?\<close>\<close>

definition opt_blank :: "string \<Rightarrow> string" where
  "opt_blank s = (case s of [] \<Rightarrow> [] | c # t \<Rightarrow> if c = CHR '' '' then t else s)"

text \<open>
  \<open>HUNK_REGEX = ^@@ -(\d+)(?:,(\d+))? \+(\d+)(?:,(\d+))?\ @@[ ]?(.*)\<close>

  The result holds the groups that the parser reads: 2, 4 and 5.
\<close>

definition hunk_match :: "string \<Rightarrow> (string option \<times> string option \<times> string) option" where
  "hunk_match x =
     (case strip_prefix ''@@ -'' x of None \<Rightarrow> None | Some s1 \<Rightarrow>
     (case digits1 s1 of None \<Rightarrow> None | Some (g1, s2) \<Rightarrow>
     (case opt_count s2 of (g2, s3) \<Rightarrow>
     (case strip_prefix '' +'' s3 of None \<Rightarrow> None | Some s4 \<Rightarrow>
     (case digits1 s4 of None \<Rightarrow> None | Some (g3, s5) \<Rightarrow>
     (case opt_count s5 of (g4, s6) \<Rightarrow>
     (case strip_prefix '' @@'' s6 of None \<Rightarrow> None | Some s7 \<Rightarrow>
        Some (g2, g4, takeWhile (\<lambda>c. c \<noteq> newline) (opt_blank s7)))))))))"

subsection \<open>Class Diff\<close>

type_synonym diff_index = "string \<times> string"
type_synonym patches = "(diff_index \<times> (string \<times> Hunk) list) list"

record Diff =
  patches :: patches
  lines :: nat
  affected :: "string set"

text \<open>\<open>'/dev/null' in i\<close>: the needle occurs somewhere in the path.\<close>

fun contains :: "string \<Rightarrow> string \<Rightarrow> bool" where
  "contains needle [] = (needle = [])"
| "contains needle (c # cs) = (strip_prefix needle (c # cs) \<noteq> None \<or> contains needle cs)"

text \<open>The body of the \<open>for\<close> loop of \<open>Diff.__init__\<close> for one key \<open>(i, j)\<close>.\<close>

definition add_affected :: "diff_index \<Rightarrow> string set \<Rightarrow> string set" where
  "add_affected k s =
     (case k of (i, j) \<Rightarrow>
        let s1 = (if \<not> contains ''/dev/null'' i then insert (drop 2 i) s else s)
        in if \<not> contains ''/dev/null'' j then insert (drop 2 j) s1 else s1)"

text \<open>\<open>Diff.__init__\<close>\<close>

definition Diff_init :: "patches \<Rightarrow> nat \<Rightarrow> Diff" where
  "Diff_init ps n =
     \<lparr>patches = ps, lines = n, affected = fold add_affected (map fst ps) {}\<rparr>"

subsection \<open>The innermost loop: the lines of one hunk\<close>

record hunk_state =
  del_cntr :: nat
  add_cntr :: nat
  ins_acc :: "string list"
  dels_acc :: "string list"
  ctx_acc :: "string list"

definition hunk_state_init :: hunk_state where
  "hunk_state_init = \<lparr>del_cntr = 0, add_cntr = 0, ins_acc = [], dels_acc = [], ctx_acc = []\<rparr>"

text \<open>The body of the loop after \<open>line = diff.pop(0)\<close>: the identifier and the payload,
  then the \<open>if\<close>/\<open>elif\<close> chain. A line that starts with a backslash takes no branch.\<close>

definition classify :: "string \<Rightarrow> hunk_state \<Rightarrow> hunk_state" where
  "classify line st =
     (let identifier = (case line of [] \<Rightarrow> CHR '' '' | c # _ \<Rightarrow> c);
          payload = (case line of [] \<Rightarrow> [] | _ # p \<Rightarrow> p)
      in if identifier = CHR ''+'' then
           st\<lparr>ins_acc := ins_acc st @ [payload], add_cntr := add_cntr st + 1\<rparr>
         else if identifier = CHR ''-'' then
           st\<lparr>dels_acc := dels_acc st @ [payload], del_cntr := del_cntr st + 1\<rparr>
         else if identifier = CHR '' '' then
           st\<lparr>ctx_acc := ctx_acc st @ [payload],
              add_cntr := add_cntr st + 1, del_cntr := del_cntr st + 1\<rparr>
         else if identifier \<noteq> CHR 0x5C then
           st\<lparr>add_cntr := add_cntr st + 1, del_cntr := del_cntr st + 1\<rparr>
         else st)"

text \<open>\<open>while not (del_cntr == l_lines and add_cntr == r_lines)\<close>: the state at the exit
  and the lines left, or the IndexError of \<open>pop\<close> on the empty list.\<close>

fun hunk_lines :: "nat \<Rightarrow> nat \<Rightarrow> hunk_state \<Rightarrow> string list \<Rightarrow> error + (hunk_state \<times> string list)" where
  "hunk_lines l_lines r_lines st [] =
     (if del_cntr st = l_lines \<and> add_cntr st = r_lines then Inr (st, [])
      else Inl IndexError)"
| "hunk_lines l_lines r_lines st (line # diff) =
     (if del_cntr st = l_lines \<and> add_cntr st = r_lines then Inr (st, line # diff)
      else hunk_lines l_lines r_lines (classify line st) diff)"

text \<open>\<open>filter(None, xs)\<close> keeps the strings that are not empty.\<close>

definition remove_empty :: "string list \<Rightarrow> string list" where
  "remove_empty xs = filter (\<lambda>s. s \<noteq> []) xs"

text \<open>The counts of a matched header: 1 unless the group is there.\<close>

definition count_of :: "string option \<Rightarrow> nat" where
  "count_of g = (case g of None \<Rightarrow> 1 | Some ds \<Rightarrow> int_of_digits ds)"

text \<open>One hunk after its header: the loop, then the three filters and \<open>Hunk(...)\<close>.\<close>

definition parse_hunk :: "nat \<Rightarrow> nat \<Rightarrow> string list \<Rightarrow> error + (Hunk \<times> string list)" where
  "parse_hunk l_lines r_lines diff =
     (case hunk_lines l_lines r_lines hunk_state_init diff of
        Inl e \<Rightarrow> Inl e
      | Inr (st, rest) \<Rightarrow>
          Inr (Hunk_init (remove_empty (ins_acc st)) (remove_empty (dels_acc st))
                 (remove_empty (ctx_acc st)), rest))"

subsection \<open>Storing a hunk\<close>

text \<open>The two \<open>not in\<close> tests and the merge into \<open>patches[diff_index][hunk_heading]\<close>.\<close>

definition store_hunk :: "diff_index \<Rightarrow> string \<Rightarrow> Hunk \<Rightarrow> patches \<Rightarrow> patches" where
  "store_hunk diff_index hunk_heading h ps =
     (let inner = (case map_of ps diff_index of None \<Rightarrow> [] | Some d \<Rightarrow> d);
          old = (case map_of inner hunk_heading of None \<Rightarrow> Hunk_empty | Some g \<Rightarrow> g)
      in AList.update diff_index (AList.update hunk_heading (merge old h) inner) ps)"

subsection \<open>The loop over the hunks of one file\<close>

lemma hunk_lines_length:
  "hunk_lines l r st diff = Inr (st', rest) \<Longrightarrow> length rest \<le> length diff"
  by (induction diff arbitrary: st) (auto split: if_splits intro: le_SucI)

lemma parse_hunk_length:
  "parse_hunk l r diff = Inr (h, rest) \<Longrightarrow> length rest \<le> length diff"
  by (auto simp: parse_hunk_def split: sum.splits dest: hunk_lines_length)

text \<open>\<open>while len(diff) and Diff.HUNK_REGEX.match(diff[0])\<close>: the patches and the lines
  left when the next line is no hunk header.\<close>

function hunk_loop :: "diff_index \<Rightarrow> patches \<Rightarrow> string list \<Rightarrow> error + (patches \<times> string list)" where
  "hunk_loop diff_index ps [] = Inr (ps, [])"
| "hunk_loop diff_index ps (x # diff) =
     (case hunk_match x of
        None \<Rightarrow> Inr (ps, x # diff)
      | Some (g2, g4, hunk_heading) \<Rightarrow>
          (case parse_hunk (count_of g2) (count_of g4) diff of
             Inl e \<Rightarrow> Inl e
           | Inr (h, rest) \<Rightarrow> hunk_loop diff_index (store_hunk diff_index hunk_heading h ps) rest))"
  by pat_completeness auto
termination
  by (relation "measure (\<lambda>(k, ps, diff). length diff)")
     (auto dest: parse_hunk_length)

subsection \<open>The loop over the files\<close>

text \<open>The inner \<open>while\<close> that pops lines until one matches the minus header: the last
  line popped and the lines left. It runs on a list that is not empty, \<open>x\<close> its head.\<close>

fun seek_minus :: "string \<Rightarrow> string list \<Rightarrow> string \<times> string list" where
  "seek_minus x [] = (x, [])"
| "seek_minus x (y # ys) =
     (if file_separator_minus_match x \<noteq> None then (x, y # ys) else seek_minus y ys)"

lemma seek_minus_length: "seek_minus x xs = (m, rest) \<Longrightarrow> length rest \<le> length xs"
  by (induction xs arbitrary: x) (auto split: if_splits intro: le_SucI)

lemma hunk_loop_length:
  "hunk_loop k ps diff = Inr (ps', rest) \<Longrightarrow> length rest \<le> length diff"
proof (induction k ps diff arbitrary: ps' rest rule: hunk_loop.induct)
  case (1 k ps)
  then show ?case by simp
next
  case (2 k ps x diff)
  show ?case
  proof (cases "hunk_match x")
    case None
    with 2 show ?thesis by simp
  next
    case (Some t)
    obtain g2 g4 heading where t: "t = (g2, g4, heading)" by (cases t)
    from 2(2) Some t obtain h r where
      ph: "parse_hunk (count_of g2) (count_of g4) diff = Inr (h, r)"
      and rec: "hunk_loop k (store_hunk k heading h ps) r = Inr (ps', rest)"
      by (auto split: sum.splits)
    have "length rest \<le> length r"
      using 2(1) Some t ph rec by simp
    with parse_hunk_length[OF ph] show ?thesis by simp
  qed
qed

text \<open>\<open>while len(diff)\<close>, the outer loop: seek the minus header, stop when nothing is
  left after it, read both paths, run the hunks.\<close>

function file_loop :: "patches \<Rightarrow> string list \<Rightarrow> error + patches" where
  "file_loop ps [] = Inr ps"
| "file_loop ps (x # xs) =
     (case seek_minus x xs of (minus_line, diff) \<Rightarrow>
        (case diff of
           [] \<Rightarrow> Inr ps
         | y # diff' \<Rightarrow>
             (case file_separator_minus_match minus_line of
                None \<Rightarrow> Inl AttributeError
              | Some minus_path \<Rightarrow>
                  (case file_separator_plus_match y of
                     None \<Rightarrow> Inl AttributeError
                   | Some plus_path \<Rightarrow>
                       (case hunk_loop (minus_path, plus_path) ps diff' of
                          Inl e \<Rightarrow> Inl e
                        | Inr (ps', rest) \<Rightarrow> file_loop ps' rest)))))"
  by pat_completeness auto
termination
proof (relation "measure (\<lambda>(ps, diff). length diff)", goal_cases)
  case 1
  show ?case by simp
next
  case 2
  then show ?case
    by (auto dest!: seek_minus_length[OF sym] hunk_loop_length)
qed

subsection \<open>The two entry points\<close>

text \<open>\<open>diff.split('\n')\<close>: the pieces between line feeds; the result is never empty.\<close>

fun split_nl :: "string \<Rightarrow> string list" where
  "split_nl [] = [[]]"
| "split_nl (c # cs) =
     (if c = newline then [] # split_nl cs
      else (case split_nl cs of [] \<Rightarrow> [[c]] | l # ls \<Rightarrow> (c # l) # ls))"

text \<open>\<open>diff_lines\<close>: the lengths of the selected lines, summed.\<close>

definition diff_lines :: "string list \<Rightarrow> nat" where
  "diff_lines diff = sum_list (map length (filter diff_selector_match diff))"

definition parse_diff_nosplit :: "string list \<Rightarrow> error + Diff" where
  "parse_diff_nosplit diff =
     (if diff \<noteq> [] \<and> exclude_cc_match (hd diff) then Inr (Diff_init [] 0)
      else (case file_loop [] diff of
              Inl e \<Rightarrow> Inl e
            | Inr ps \<Rightarrow> Inr (Diff_init ps (diff_lines diff))))"

definition parse_diff :: "string \<Rightarrow> error + Diff" where
  "parse_diff diff = parse_diff_nosplit (split_nl diff)"

subsection \<open>Notions used in the statements\<close>



text \<open>\<open>'\n'.join(xs)\<close>, the inverse of the split.\<close>

fun join_nl :: "string list \<Rightarrow> string" where
  "join_nl [] = []"
| "join_nl [x] = x"
| "join_nl (x # y # ys) = x @ newline # join_nl (y # ys)"





text \<open>
  The hunks in the order in which the parser meets them, each with the key of its file
  segment and its heading. \<open>hunk_trace\<close> and \<open>file_trace\<close> scan as \<open>hunk_loop\<close> and
  \<open>file_loop\<close> do, and list the hunks instead of storing them.
\<close>

type_synonym met_hunk = "diff_index \<times> string \<times> Hunk"

function hunk_trace :: "diff_index \<Rightarrow> string list \<Rightarrow> error + (met_hunk list \<times> string list)" where
  "hunk_trace diff_index [] = Inr ([], [])"
| "hunk_trace diff_index (x # diff) =
     (case hunk_match x of
        None \<Rightarrow> Inr ([], x # diff)
      | Some (g2, g4, hunk_heading) \<Rightarrow>
          (case parse_hunk (count_of g2) (count_of g4) diff of
             Inl e \<Rightarrow> Inl e
           | Inr (h, rest) \<Rightarrow>
               (case hunk_trace diff_index rest of
                  Inl e \<Rightarrow> Inl e
                | Inr (tr, rest') \<Rightarrow> Inr ((diff_index, hunk_heading, h) # tr, rest'))))"
  by pat_completeness auto
termination
  by (relation "measure (\<lambda>(k, diff). length diff)")
     (auto dest: parse_hunk_length)

lemma hunk_trace_length:
  "hunk_trace k diff = Inr (tr, rest) \<Longrightarrow> length rest \<le> length diff"
proof (induction k diff arbitrary: tr rest rule: hunk_trace.induct)
  case (1 k)
  then show ?case by simp
next
  case (2 k x diff)
  show ?case
  proof (cases "hunk_match x")
    case None
    with 2 show ?thesis by simp
  next
    case (Some t)
    obtain g2 g4 heading where t: "t = (g2, g4, heading)" by (cases t)
    from 2(2) Some t obtain h r tr' where
      ph: "parse_hunk (count_of g2) (count_of g4) diff = Inr (h, r)"
      and rec: "hunk_trace k r = Inr (tr', rest)"
      by (auto split: sum.splits)
    have "length rest \<le> length r"
      using 2(1) Some t ph rec by simp
    with parse_hunk_length[OF ph] show ?thesis by simp
  qed
qed

function file_trace :: "string list \<Rightarrow> error + met_hunk list" where
  "file_trace [] = Inr []"
| "file_trace (x # xs) =
     (case seek_minus x xs of (minus_line, diff) \<Rightarrow>
        (case diff of
           [] \<Rightarrow> Inr []
         | y # diff' \<Rightarrow>
             (case file_separator_minus_match minus_line of
                None \<Rightarrow> Inl AttributeError
              | Some minus_path \<Rightarrow>
                  (case file_separator_plus_match y of
                     None \<Rightarrow> Inl AttributeError
                   | Some plus_path \<Rightarrow>
                       (case hunk_trace (minus_path, plus_path) diff' of
                          Inl e \<Rightarrow> Inl e
                        | Inr (tr, rest) \<Rightarrow>
                            (case file_trace rest of
                               Inl e \<Rightarrow> Inl e
                             | Inr tr' \<Rightarrow> Inr (tr @ tr')))))))"
  by pat_completeness auto
termination
proof (relation "measure length", goal_cases)
  case 1
  show ?case by simp
next
  case 2
  then show ?case
    by (auto dest!: seek_minus_length[OF sym] hunk_trace_length)
qed

text \<open>Storing the hunks of a trace one after the other.\<close>

definition store_all :: "met_hunk list \<Rightarrow> patches \<Rightarrow> patches" where
  "store_all tr ps = fold (\<lambda>(k, heading, h). store_hunk k heading h) tr ps"

text \<open>\<open>patches[k][heading]\<close> when both keys are there; the hunks of a trace under one key
  and heading, in order; the concatenation of the three lists of some hunks; and a
  patches mapping in which no key and no heading occurs twice.\<close>

definition lookup_hunk :: "patches \<Rightarrow> diff_index \<Rightarrow> string \<Rightarrow> Hunk option" where
  "lookup_hunk ps k heading =
     (case map_of ps k of None \<Rightarrow> None | Some inner \<Rightarrow> map_of inner heading)"

definition hunks_at :: "diff_index \<Rightarrow> string \<Rightarrow> met_hunk list \<Rightarrow> Hunk list" where
  "hunks_at k heading tr =
     map (\<lambda>e. snd (snd e)) (filter (\<lambda>e. fst e = k \<and> fst (snd e) = heading) tr)"

definition concat_hunks :: "Hunk list \<Rightarrow> Hunk" where
  "concat_hunks hs =
     \<lparr>insertions = concat (map insertions hs),
      deletions = concat (map deletions hs),
      context = concat (map context hs)\<rparr>"

definition unique_keys :: "patches \<Rightarrow> bool" where
  "unique_keys ps \<longleftrightarrow>
     distinct (map fst ps) \<and> list_all (\<lambda>e. distinct (map fst (snd e))) ps"

text \<open>
  The states at the head of the outer \<open>while\<close> loop of a run on the lines \<open>diff0\<close>: the
  patches collected so far and the lines left. The run starts with no patches and all
  lines; a round that finds a minus header with a line after it, reads both paths and
  gets through the hunk loop leads to the next state.
\<close>

inductive file_loop_at :: "string list \<Rightarrow> patches \<Rightarrow> string list \<Rightarrow> bool"
  for diff0 :: "string list" where
  at_start: "file_loop_at diff0 [] diff0"
| at_next:
    "file_loop_at diff0 ps (x # xs) \<Longrightarrow>
     seek_minus x xs = (minus_line, y # diff') \<Longrightarrow>
     file_separator_minus_match minus_line = Some minus_path \<Longrightarrow>
     file_separator_plus_match y = Some plus_path \<Longrightarrow>
     hunk_loop (minus_path, plus_path) ps diff' = Inr (ps', rest) \<Longrightarrow>
     file_loop_at diff0 ps' rest"

code_pred file_loop_at .

section \<open>Properties\<close>

subsection \<open>Evaluation\<close>

text \<open>The definitions that evaluate the parser on a concrete text.\<close>

lemmas parser_defs =
  parse_diff_def parse_diff_nosplit_def exclude_cc_match_def
  file_separator_minus_match_def file_separator_plus_match_def dot_star_end_def
  Diff_init_def diff_lines_def diff_selector_match_def newline_def is_space_def
  hunk_match_def digits1_def opt_count_def opt_blank_def is_digit_def count_of_def
  int_of_digits_def digit_val_def
  parse_hunk_def hunk_state_init_def classify_def remove_empty_def Hunk_init_def
  store_hunk_def Hunk_empty_def merge_def add_affected_def

subsection \<open>The scan for the minus header\<close>

lemma split_nl_not_Nil: "split_nl t \<noteq> []"
  by (induction t) (auto split: list.splits)

lemma seek_minus_last:
  "\<forall>z\<in>set (butlast (x # xs)). file_separator_minus_match z = None \<Longrightarrow> snd (seek_minus x xs) = []"
  by (induction xs arbitrary: x) auto

lemma file_loop_no_segment:
  assumes "\<forall>z\<in>set (butlast diff). file_separator_minus_match z = None"
  shows "file_loop ps diff = Inr ps"
proof (cases diff)
  case Nil
  then show ?thesis by simp
next
  case (Cons x xs)
  with assms have "snd (seek_minus x xs) = []"
    using seek_minus_last by blast
  then show ?thesis using Cons by (cases "seek_minus x xs") simp
qed


lemma seek_minus_found:
  "\<forall>z\<in>set pre. file_separator_minus_match z = None \<Longrightarrow>
   file_separator_minus_match m \<noteq> None \<Longrightarrow>
   pre @ m # rest = x # xs \<Longrightarrow> seek_minus x xs = (m, rest)"
proof (induction pre arbitrary: x xs)
  case Nil
  then show ?case by (cases rest) auto
next
  case (Cons a pre)
  then obtain x' xs' where e: "pre @ m # rest = x' # xs'" by (cases pre) auto
  with Cons have r: "seek_minus x' xs' = (m, rest)" by simp
  from Cons.prems have "x = a" "xs = x' # xs'" "file_separator_minus_match a = None"
    using e by auto
  with r show ?case by simp
qed

text \<open>One round of the outer loop on an input whose first minus header is \<open>m\<close> and is
  not the last line.\<close>

lemma file_loop_segment:
  assumes "\<forall>z\<in>set pre. file_separator_minus_match z = None"
    and "file_separator_minus_match m = Some minus_path"
  shows "file_loop ps (pre @ m # y # rest) =
     (case file_separator_plus_match y of
        None \<Rightarrow> Inl AttributeError
      | Some plus_path \<Rightarrow>
          (case hunk_loop (minus_path, plus_path) ps rest of
             Inl e \<Rightarrow> Inl e
           | Inr (ps', rest') \<Rightarrow> file_loop ps' rest'))"
proof -
  obtain x xs where e: "pre @ m # y # rest = x # xs" by (cases pre) auto
  with assms have "seek_minus x xs = (m, y # rest)"
    using seek_minus_found[of pre m "y # rest" x xs] by simp
  with e assms(2) show ?thesis by simp
qed

subsection \<open>Combined diffs\<close>

text \<open>
  Claim C6. When the first line of the text matches \<open>EXCLUDE_CC_REGEX\<close>
  (\<open>diff --cc <path>\<close>), \<open>parse_diff\<close> returns a Diff whose patches are empty and whose
  size metric is 0, whatever follows the first line; it raises nothing. The set of
  affected paths is empty as well.
\<close>

theorem combined_diff_is_empty:
  assumes "exclude_cc_match (hd (split_nl text))"
  shows "parse_diff text = Inr \<lparr>patches = [], lines = 0, affected = {}\<rparr>"
  using assms
  by (simp add: parse_diff_def parse_diff_nosplit_def split_nl_not_Nil Diff_init_def)

text \<open>The header followed by a minus header without its plus header, which raises in a
  text that does not start with the combined-diff header.\<close>

theorem combined_diff_is_empty_witness:
  "exclude_cc_match
     (hd (split_nl (''diff --cc foo.c'' @ [newline] @ ''--- a/foo.c'' @ [newline] @ ''@@ -1,2 +1 @@'')))
   \<and> parse_diff (''diff --cc foo.c'' @ [newline] @ ''--- a/foo.c'' @ [newline] @ ''@@ -1,2 +1 @@'')
       = Inr \<lparr>patches = [], lines = 0, affected = {}\<rparr>"
proof -
  have h: "exclude_cc_match
     (hd (split_nl (''diff --cc foo.c'' @ [newline] @ ''--- a/foo.c'' @ [newline] @ ''@@ -1,2 +1 @@'')))"
    by (simp add: exclude_cc_match_def dot_star_end_def newline_def)
  from h combined_diff_is_empty[OF h] show ?thesis by simp
qed

subsection \<open>The size metric\<close>

lemma split_nl_join: "join_nl (split_nl t) = t"
proof (induction t)
  case Nil
  show ?case by simp
next
  case (Cons c t)
  obtain l ls where s: "split_nl t = l # ls"
    using split_nl_not_Nil by (cases "split_nl t") auto
  with Cons show ?case by (cases ls) auto
qed

lemma split_nl_no_newline: "l \<in> set (split_nl t) \<Longrightarrow> newline \<notin> set l"
proof (induction t arbitrary: l)
  case Nil
  then show ?case by simp
next
  case (Cons c t)
  obtain a as where s: "split_nl t = a # as"
    using split_nl_not_Nil by (cases "split_nl t") auto
  with Cons show ?case by (auto split: if_splits)
qed

lemma diff_lines_sum:
  "diff_lines xs =
   sum_list (map (\<lambda>x. if x \<noteq> [] \<and> hd x \<in> {CHR ''-'', CHR ''+'', CHR ''@''} then length x else 0) xs)"
  by (induction xs) (auto simp: diff_lines_def diff_selector_match_def split: list.splits)

text \<open>
  Claim C5. For a text whose first line is no combined-diff header, the size metric
  \<open>lines\<close> of the Diff that \<open>parse_diff\<close> returns is the sum of the lengths of the lines
  whose first character is \<open>-\<close>, \<open>+\<close> or \<open>@\<close>. The lines are the pieces of the text
  between line feeds: joining them with line feeds gives the text back and no piece holds
  a line feed, so a carriage return never ends a line. The equation does not depend on
  what the scanner finds: it holds for every Diff returned, with or without file
  segments. (When the scanner raises, no Diff and no metric is returned.)
\<close>

theorem size_metric_is_selected_length:
  assumes "\<not> exclude_cc_match (hd (split_nl text))"
    and "parse_diff text = Inr d"
  shows "lines d =
           sum_list (map (\<lambda>x. if x \<noteq> [] \<and> hd x \<in> {CHR ''-'', CHR ''+'', CHR ''@''}
                               then length x else 0) (split_nl text))
         \<and> join_nl (split_nl text) = text
         \<and> (\<forall>l\<in>set (split_nl text). newline \<notin> set l)"
proof -
  from assms have "lines d = diff_lines (split_nl text)"
    by (auto simp: parse_diff_def parse_diff_nosplit_def Diff_init_def split: sum.splits)
  then show ?thesis
    by (simp add: diff_lines_sum split_nl_join split_nl_no_newline)
qed

text \<open>A text with a carriage return inside its first line and no file segment.\<close>

theorem size_metric_is_selected_length_witness:
  "\<not> exclude_cc_match (hd (split_nl (''+a'' @ [CHR 0x0D] @ ''-b'' @ [newline] @ ''x'' @ [newline] @ ''@@'')))
   \<and> parse_diff (''+a'' @ [CHR 0x0D] @ ''-b'' @ [newline] @ ''x'' @ [newline] @ ''@@'')
       = Inr \<lparr>patches = [], lines = 7, affected = {}\<rparr>
   \<and> lines \<lparr>patches = [], lines = 7, affected = {}\<rparr> =
       sum_list (map (\<lambda>x. if x \<noteq> [] \<and> hd x \<in> {CHR ''-'', CHR ''+'', CHR ''@''}
                               then length x else 0) [''+a'' @ [CHR 0x0D] @ ''-b'', ''x'', ''@@''])"
proof -
  let ?t = "''+a'' @ [CHR 0x0D] @ ''-b'' @ [newline] @ ''x'' @ [newline] @ ''@@''"
  have s: "split_nl ?t = [''+a'' @ [CHR 0x0D] @ ''-b'', ''x'', ''@@'']"
    by (simp add: newline_def)
  have c: "\<not> exclude_cc_match (hd (split_nl ?t))"
    unfolding s by (simp add: exclude_cc_match_def)
  have p: "parse_diff ?t = Inr \<lparr>patches = [], lines = 7, affected = {}\<rparr>"
    unfolding parse_diff_def s
    by (simp add: parse_diff_nosplit_def exclude_cc_match_def file_separator_minus_match_def
        Diff_init_def diff_lines_def diff_selector_match_def)
  from size_metric_is_selected_length[OF c p] c p s show ?thesis by simp
qed

subsection \<open>Inputs without a file segment\<close>

text \<open>
  Claim C9 says that an input that is empty or has no minus/plus header pair yields a
  Diff with empty patches and a zero size metric, without an error. It fails twice:
  \<open>+foo\<close> has no header at all and its size metric is 4, and a minus header followed by
  a line that is no plus header raises.
\<close>

theorem no_segment_counterexample:
  "parse_diff ''+foo'' = Inr \<lparr>patches = [], lines = 4, affected = {}\<rparr>
   \<and> parse_diff (''--- a/foo.c'' @ [newline] @ ''foo'') = Inl AttributeError"
  by (simp add: parse_diff_def parse_diff_nosplit_def exclude_cc_match_def
      file_separator_minus_match_def file_separator_plus_match_def dot_star_end_def
      Diff_init_def diff_lines_def diff_selector_match_def newline_def)

text \<open>
  Claim C9, amended. When no line before the last one matches the minus header (so for
  the empty text, and for every text without a minus header), \<open>parse_diff\<close> raises
  nothing and returns a Diff with empty patches and no affected path. Its size metric
  is the sum of the lengths of the selected lines, 0 after a combined-diff header; for
  the empty text it is 0.
\<close>

theorem no_segment_gives_empty_patches:
  assumes "\<forall>x\<in>set (butlast (split_nl text)). file_separator_minus_match x = None"
  shows "parse_diff text =
           Inr \<lparr>patches = [],
                lines = (if exclude_cc_match (hd (split_nl text)) then 0
                         else diff_lines (split_nl text)),
                affected = {}\<rparr>
         \<and> parse_diff [] = Inr \<lparr>patches = [], lines = 0, affected = {}\<rparr>"
proof -
  have "file_loop [] (split_nl text) = Inr []"
    using assms by (rule file_loop_no_segment)
  then show ?thesis
    by (simp add: parse_diff_def parse_diff_nosplit_def Diff_init_def split_nl_not_Nil
        diff_lines_def diff_selector_match_def)
qed

text \<open>A selected line, then a minus header as the last line.\<close>

theorem no_segment_gives_empty_patches_witness:
  "butlast (split_nl (''+foo'' @ [newline] @ ''--- a/foo.c'')) = [''+foo'']
   \<and> file_separator_minus_match ''+foo'' = None
   \<and> parse_diff (''+foo'' @ [newline] @ ''--- a/foo.c'') =
       Inr \<lparr>patches = [], lines = 15, affected = {}\<rparr>"
proof -
  let ?t = "''+foo'' @ [newline] @ ''--- a/foo.c''"
  have s: "split_nl ?t = [''+foo'', ''--- a/foo.c'']"
    by (simp add: newline_def)
  have h: "\<forall>x\<in>set (butlast (split_nl ?t)). file_separator_minus_match x = None"
    unfolding s by (simp add: file_separator_minus_match_def)
  from no_segment_gives_empty_patches[OF h] show ?thesis
    unfolding s
    by (simp add: exclude_cc_match_def diff_lines_def diff_selector_match_def
        file_separator_minus_match_def)
qed

subsection \<open>A minus header without its plus header\<close>

text \<open>A run of the outer loop from any of its states gives the result of the whole run.\<close>

lemma file_loop_at_eq:
  "file_loop_at diff0 ps diff \<Longrightarrow> file_loop [] diff0 = file_loop ps diff"
proof (induction rule: file_loop_at.induct)
  case at_start
  show ?case by simp
next
  case (at_next ps x xs minus_line y diff' minus_path plus_path ps' rest)
  then show ?case by simp
qed

text \<open>
  Claim C2 says that a matched minus header whose plus header is missing or does not
  match makes the parse fail, and never gives a Diff. It fails where the matched minus
  header is the last line: the inner loop ends with no line left, the test
  \<open>if len(diff) == 0: break\<close> leaves the outer loop, and the Diff collected so far is
  returned without any failure.
\<close>

theorem dangling_minus_header_counterexample:
  "parse_diff (''--- a/f'' @ [newline] @ ''+++ b/f'' @ [newline] @ ''@@ -1 +1 @@'' @ [newline]
               @ ''-x'' @ [newline] @ ''+y'' @ [newline] @ ''--- a/g'')
   = Inr \<lparr>patches = [((''a/f'', ''b/f''),
                       [([], \<lparr>insertions = [''y''], deletions = [''x''], context = []\<rparr>)])],
          lines = 36, affected = {''f''}\<rparr>"
  by (simp add: parser_defs)

text \<open>
  Claim C2, amended. In a text that does not start with a combined-diff header, when a
  round of the outer loop finds a line that matches the minus header and a line follows
  it that does not match the plus header, the parse fails: \<open>.group(1)\<close> is called on
  \<open>None\<close> and the AttributeError leaves \<open>parse_diff\<close>; no Diff is returned. This holds
  in every round, the first and the later ones, whatever patches have been collected.
\<close>

theorem missing_plus_header_raises:
  assumes "\<not> exclude_cc_match (hd (split_nl text))"
    and "file_loop_at (split_nl text) ps (pre @ m # y # rest)"
    and "\<forall>z\<in>set pre. file_separator_minus_match z = None"
    and "file_separator_minus_match m \<noteq> None"
    and "file_separator_plus_match y = None"
  shows "parse_diff text = Inl AttributeError
         \<and> (\<forall>ps'. file_loop ps' (pre @ m # y # rest) = Inl AttributeError)"
proof -
  from assms(4) obtain mp where mp: "file_separator_minus_match m = Some mp" by auto
  have l: "file_loop ps' (pre @ m # y # rest) = Inl AttributeError" for ps'
    using file_loop_segment[OF assms(3) mp, of ps' y rest] assms(5) by simp
  have "file_loop [] (split_nl text) = file_loop ps (pre @ m # y # rest)"
    using assms(2) by (rule file_loop_at_eq)
  with l assms(1) show ?thesis
    by (simp add: parse_diff_def parse_diff_nosplit_def)
qed

text \<open>The text of the counterexample with a line feed at its end: the empty last line
  follows the second minus header, in the second round of the loop.\<close>

theorem missing_plus_header_raises_witness:
  "parse_diff (''--- a/f'' @ [newline] @ ''+++ b/f'' @ [newline] @ ''@@ -1 +1 @@'' @ [newline]
               @ ''-x'' @ [newline] @ ''+y'' @ [newline] @ ''--- a/g'' @ [newline])
     = Inl AttributeError
   \<and> file_separator_minus_match ''--- a/g'' \<noteq> None
   \<and> file_separator_plus_match [] = None"
proof -
  let ?t = "''--- a/f'' @ [newline] @ ''+++ b/f'' @ [newline] @ ''@@ -1 +1 @@'' @ [newline]
               @ ''-x'' @ [newline] @ ''+y'' @ [newline] @ ''--- a/g'' @ [newline]"
  let ?ps = "[((''a/f'', ''b/f''),
               [([], \<lparr>insertions = [''y''], deletions = [''x''], context = []\<rparr>)])]"
  have s: "split_nl ?t =
      ''--- a/f'' # [''+++ b/f'', ''@@ -1 +1 @@'', ''-x'', ''+y'', ''--- a/g'', []]"
    by (simp add: newline_def)
  have c: "\<not> exclude_cc_match (hd (split_nl ?t))"
    unfolding s by (simp add: exclude_cc_match_def)
  have "file_loop_at (split_nl ?t) [] (split_nl ?t)" by (rule at_start)
  then have "file_loop_at (split_nl ?t) [] 
      (''--- a/f'' # [''+++ b/f'', ''@@ -1 +1 @@'', ''-x'', ''+y'', ''--- a/g'', []])"
    unfolding s .
  then have at: "file_loop_at (split_nl ?t) ?ps ([] @ ''--- a/g'' # [] # [])"
  proof (rule at_next)
    show "seek_minus ''--- a/f'' [''+++ b/f'', ''@@ -1 +1 @@'', ''-x'', ''+y'', ''--- a/g'', []]
        = (''--- a/f'', ''+++ b/f'' # [''@@ -1 +1 @@'', ''-x'', ''+y'', ''--- a/g'', []])"
      by (simp add: parser_defs)
    show "file_separator_minus_match ''--- a/f'' = Some ''a/f''"
      by (simp add: parser_defs)
    show "file_separator_plus_match ''+++ b/f'' = Some ''b/f''"
      by (simp add: parser_defs)
    show "hunk_loop (''a/f'', ''b/f'') [] [''@@ -1 +1 @@'', ''-x'', ''+y'', ''--- a/g'', []]
        = Inr (?ps, [] @ ''--- a/g'' # [] # [])"
      by (simp add: parser_defs)
  qed
  have a: "\<forall>z\<in>set []. file_separator_minus_match z = None" by simp
  have b: "file_separator_minus_match ''--- a/g'' \<noteq> None"
    by (simp add: parser_defs)
  have d: "file_separator_plus_match [] = None"
    by (simp add: parser_defs)
  from missing_plus_header_raises[OF c at a b d] b d show ?thesis by simp
qed

subsection \<open>The lines of a hunk\<close>




text \<open>
  Claim C10. A line that is not empty and starts with none of \<open>+\<close>, \<open>-\<close>, space and
  backslash, read by the loop while the counts are not both reached, is consumed, adds
  one to both counters and leaves the three lists as they are.
\<close>

theorem other_line_counts_both:
  assumes "line \<noteq> []"
    and "hd line \<notin> {CHR ''+'', CHR ''-'', CHR '' '', CHR 0x5C}"
    and "\<not> (del_cntr st = l_lines \<and> add_cntr st = r_lines)"
  shows "hunk_lines l_lines r_lines st (line # diff) =
         hunk_lines l_lines r_lines
           (st\<lparr>add_cntr := add_cntr st + 1, del_cntr := del_cntr st + 1\<rparr>) diff"
  using assms by (cases line) (auto simp: classify_def)

text \<open>A line that starts with \<open>@\<close> fills a hunk of one old and one new line.\<close>

theorem other_line_counts_both_witness:
  "''@x'' \<noteq> [] \<and> hd ''@x'' \<notin> {CHR ''+'', CHR ''-'', CHR '' '', CHR 0x5C}
   \<and> \<not> (del_cntr hunk_state_init = 1 \<and> add_cntr hunk_state_init = 1)
   \<and> hunk_lines 1 1 hunk_state_init [''@x'', ''+y''] =
       Inr (\<lparr>del_cntr = 1, add_cntr = 1, ins_acc = [], dels_acc = [], ctx_acc = []\<rparr>, [''+y''])"
  using other_line_counts_both[of "''@x''" hunk_state_init 1 1 "[''+y'']"]
  by (simp add: hunk_state_init_def)

text \<open>
  Claim C4 says that a line starting with a backslash counts toward both targets. The
  branch \<open>elif identifier != Diff.LINE_IDENTIFIER_NEWLINE\<close> is the one that counts both, and such a line does
  not take it: the counters stay. With one old and one new line declared, the marker
  between the deletion and the insertion does not end the hunk.
\<close>

theorem backslash_line_counts_both_counterexample:
  "\<not> (add_cntr (classify (CHR 0x5C # '' No newline at end of file'') hunk_state_init)
        = add_cntr hunk_state_init + 1
      \<and> del_cntr (classify (CHR 0x5C # '' No newline at end of file'') hunk_state_init)
        = del_cntr hunk_state_init + 1)
   \<and> hunk_lines 1 1 hunk_state_init
        [''-old'', CHR 0x5C # '' No newline at end of file'', ''+new'', ''rest'']
       = Inr (\<lparr>del_cntr = 1, add_cntr = 1, ins_acc = [''new''], dels_acc = [''old''],
               ctx_acc = []\<rparr>, [''rest''])"
  by (simp add: classify_def hunk_state_init_def)

text \<open>
  Claim C4, amended. A line that starts with a backslash, read by the loop while the
  counts are not both reached, is consumed, counts toward neither target and adds
  nothing to the three lists: the loop goes on with the same state.
\<close>

theorem backslash_line_counts_neither:
  assumes "line \<noteq> []"
    and "hd line = CHR 0x5C"
    and "\<not> (del_cntr st = l_lines \<and> add_cntr st = r_lines)"
  shows "hunk_lines l_lines r_lines st (line # diff) = hunk_lines l_lines r_lines st diff"
  using assms by (cases line) (auto simp: classify_def)

text \<open>The marker before the only insertion of a hunk.\<close>

theorem backslash_line_counts_neither_witness:
  "[CHR 0x5C] \<noteq> [] \<and> hd [CHR 0x5C] = CHR 0x5C
   \<and> \<not> (del_cntr hunk_state_init = 0 \<and> add_cntr hunk_state_init = 1)
   \<and> hunk_lines 0 1 hunk_state_init [[CHR 0x5C], ''+y''] =
       Inr (\<lparr>del_cntr = 0, add_cntr = 1, ins_acc = [''y''], dels_acc = [], ctx_acc = []\<rparr>, [])"
  using backslash_line_counts_neither[of "[CHR 0x5C]" hunk_state_init 0 1 "[''+y'']"]
  by (simp add: hunk_state_init_def classify_def)

subsection \<open>The affected paths\<close>

text \<open>\<open>strip_prefix\<close> and \<open>contains\<close> are the prefix test and the substring test.\<close>

lemma strip_prefix_iff: "strip_prefix p s = Some r \<longleftrightarrow> s = p @ r"
  by (induction p s rule: strip_prefix.induct) auto

lemma contains_iff: "contains needle s \<longleftrightarrow> (\<exists>pre post. s = pre @ needle @ post)"
proof (induction s)
  case Nil
  show ?case by auto
next
  case (Cons c cs)
  show ?case
  proof
    assume "contains needle (c # cs)"
    then consider r where "strip_prefix needle (c # cs) = Some r" | "contains needle cs"
      by auto
    then show "\<exists>pre post. c # cs = pre @ needle @ post"
    proof cases
      case 1
      then have "c # cs = [] @ needle @ r" by (simp add: strip_prefix_iff)
      then show ?thesis by blast
    next
      case 2
      with Cons obtain pre post where "cs = pre @ needle @ post" by blast
      then have "c # cs = (c # pre) @ needle @ post" by simp
      then show ?thesis by blast
    qed
  next
    assume "\<exists>pre post. c # cs = pre @ needle @ post"
    then obtain pre post where e: "c # cs = pre @ needle @ post" by blast
    show "contains needle (c # cs)"
    proof (cases pre)
      case Nil
      with e have "strip_prefix needle (c # cs) = Some post"
        by (simp add: strip_prefix_iff)
      then show ?thesis by simp
    next
      case (Cons a pre')
      with e have "cs = pre' @ needle @ post" by simp
      with Cons.IH have "contains needle cs" by blast
      then show ?thesis by simp
    qed
  qed
qed

lemma fold_add_affected:
  "fold add_affected ks s =
     s \<union> {drop 2 p | p. p \<in> fst ` set ks \<union> snd ` set ks \<and> \<not> contains ''/dev/null'' p}"
proof (induction ks arbitrary: s)
  case Nil
  show ?case by simp
next
  case (Cons k ks)
  obtain i j where k: "k = (i, j)" by (cases k)
  show ?case
    unfolding fold_simps Cons k
    by (auto simp: add_affected_def Let_def)
qed

text \<open>
  Claim C8. For every key of the patches, the affected set holds each of its two paths
  without the \<open>a/\<close> or \<open>b/\<close> prefix, except the \<open>/dev/null\<close> sentinel, which adds
  nothing. \<open>Diff.__init__\<close> means to skip the sentinel, and tests
  \<open>'/dev/null' not in i\<close>, which is a substring test: it also skips every path that
  merely contains \<open>/dev/null\<close>. The file \<open>dev/null\<close> of a repository, a key of the
  patches through its paths \<open>a/dev/null\<close> and \<open>b/dev/null\<close>, is missing from the
  affected set, and so is \<open>src/dev/nullable.c\<close>, while \<open>src/dev.c\<close> is kept.
\<close>

theorem affected_drops_real_files:
  "parse_diff (''--- a/dev/null'' @ [newline] @ ''+++ b/dev/null'' @ [newline] @ ''@@ -1 +1 @@''
               @ [newline] @ ''-x'' @ [newline] @ ''+y'')
   = Inr \<lparr>patches = [((''a/dev/null'', ''b/dev/null''),
                       [([], \<lparr>insertions = [''y''], deletions = [''x''], context = []\<rparr>)])],
          lines = 43, affected = {}\<rparr>
   \<and> affected (Diff_init [((''a/src/dev/nullable.c'', ''b/src/dev/nullable.c''), hs)] n) = {}
   \<and> affected (Diff_init [((''a/src/dev.c'', ''b/src/dev.c''), hs)] n) = {''src/dev.c''}"
  by (simp add: parser_defs)

subsection \<open>One well-formed hunk\<close>

















subsection \<open>Hunks with the same heading\<close>

text \<open>The loops store exactly the hunks of the trace, in its order.\<close>

lemma store_all_simps:
  "store_all [] ps = ps"
  "store_all ((k, heading, h) # tr) ps = store_all tr (store_hunk k heading h ps)"
  "store_all (tr @ tr') ps = store_all tr' (store_all tr ps)"
  by (simp_all add: store_all_def)

lemma hunk_loop_trace:
  "hunk_loop k ps diff =
     (case hunk_trace k diff of
        Inl e \<Rightarrow> Inl e
      | Inr (tr, rest) \<Rightarrow> Inr (store_all tr ps, rest))"
proof (induction k ps diff rule: hunk_loop.induct)
  case (1 k ps)
  show ?case by (simp add: store_all_simps)
next
  case (2 k ps x diff)
  show ?case
  proof (cases "hunk_match x")
    case None
    then show ?thesis by (simp add: store_all_simps)
  next
    case (Some t)
    obtain g2 g4 heading where t: "t = (g2, g4, heading)" by (cases t)
    show ?thesis
    proof (cases "parse_hunk (count_of g2) (count_of g4) diff")
      case (Inl e)
      with Some t show ?thesis by simp
    next
      case (Inr hr)
      obtain h rest where hr: "hr = (h, rest)" by (cases hr)
      have "hunk_loop k (store_hunk k heading h ps) rest =
         (case hunk_trace k rest of
            Inl e \<Rightarrow> Inl e
          | Inr (tr, rest') \<Rightarrow> Inr (store_all tr (store_hunk k heading h ps), rest'))"
        using 2 Some t Inr hr by simp
      with Some t Inr hr show ?thesis
        by (auto simp: store_all_simps split: sum.splits)
    qed
  qed
qed

lemma file_loop_trace:
  "file_loop ps diff =
     (case file_trace diff of Inl e \<Rightarrow> Inl e | Inr tr \<Rightarrow> Inr (store_all tr ps))"
proof (induction ps diff rule: file_loop.induct)
  case (1 ps)
  show ?case by (simp add: store_all_simps)
next
  case (2 ps x xs)
  obtain minus_line diff where sm: "seek_minus x xs = (minus_line, diff)"
    by (cases "seek_minus x xs")
  show ?case
  proof (cases diff)
    case Nil
    with sm show ?thesis by (simp add: store_all_simps)
  next
    case (Cons y diff')
    show ?thesis
    proof (cases "file_separator_minus_match minus_line")
      case None
      with sm Cons show ?thesis by simp
    next
      case (Some minus_path)
      note mp = Some
      show ?thesis
      proof (cases "file_separator_plus_match y")
        case None
        with sm Cons mp show ?thesis by simp
      next
        case (Some plus_path)
        show ?thesis
        proof (cases "hunk_trace (minus_path, plus_path) diff'")
          case (Inl e)
          with sm Cons mp Some show ?thesis by (simp add: hunk_loop_trace)
        next
          case (Inr tr_rest)
          obtain tr rest where trr: "tr_rest = (tr, rest)" by (cases tr_rest)
          have hl: "hunk_loop (minus_path, plus_path) ps diff' = Inr (store_all tr ps, rest)"
            using Inr trr by (simp add: hunk_loop_trace)
          have "file_loop (store_all tr ps) rest =
              (case file_trace rest of
                 Inl e \<Rightarrow> Inl e | Inr tr' \<Rightarrow> Inr (store_all tr' (store_all tr ps)))"
            using 2[OF sm[symmetric] Cons mp Some hl refl] .
          with sm Cons mp Some Inr trr hl show ?thesis
            by (auto simp: store_all_simps split: sum.splits)
        qed
      qed
    qed
  qed
qed

lemma merge_assoc: "merge (merge a b) c = merge a (merge b c)"
  by (simp add: merge_def)

lemma merge_empty: "merge Hunk_empty h = h"
  by (simp add: merge_def Hunk_empty_def Hunk_init_def)

lemma concat_hunks_simps:
  "concat_hunks [] = Hunk_empty"
  "concat_hunks (h # hs) = merge h (concat_hunks hs)"
  by (simp_all add: concat_hunks_def merge_def Hunk_empty_def Hunk_init_def)

lemma merge_empty_right: "merge h Hunk_empty = h"
  by (simp add: merge_def Hunk_empty_def Hunk_init_def)

lemma lookup_store_hunk:
  "lookup_hunk (store_hunk k heading h ps) k' heading' =
     (if k' = k \<and> heading' = heading then
        Some (merge (case lookup_hunk ps k heading of None \<Rightarrow> Hunk_empty | Some g \<Rightarrow> g) h)
      else lookup_hunk ps k' heading')"
  by (auto simp: lookup_hunk_def store_hunk_def Let_def AList.update_conv'
      split: option.splits)

lemma hunks_at_Cons:
  "hunks_at k heading ((k', heading', h) # tr) =
     (if k' = k \<and> heading' = heading then h # hunks_at k heading tr else hunks_at k heading tr)"
  by (simp add: hunks_at_def)

lemma lookup_store_all:
  "lookup_hunk (store_all tr ps) k heading =
     (if hunks_at k heading tr = [] then lookup_hunk ps k heading
      else Some (merge (case lookup_hunk ps k heading of None \<Rightarrow> Hunk_empty | Some g \<Rightarrow> g)
                   (concat_hunks (hunks_at k heading tr))))"
proof (induction tr arbitrary: ps)
  case Nil
  show ?case by (simp add: store_all_simps hunks_at_def)
next
  case (Cons e tr)
  obtain k' heading' h where e: "e = (k', heading', h)" by (cases e)
  show ?case
    unfolding e store_all_simps Cons.IH hunks_at_Cons
    by (simp add: lookup_store_hunk concat_hunks_simps merge_assoc merge_empty_right)
qed

lemma set_update_subset: "set (AList.update k v al) \<subseteq> insert (k, v) (set al)"
  by (induction al) auto

lemma unique_keys_store_hunk:
  assumes "unique_keys ps"
  shows "unique_keys (store_hunk k heading h ps)"
proof -
  let ?inner = "case map_of ps k of None \<Rightarrow> [] | Some d \<Rightarrow> d"
  have d: "distinct (map fst ?inner)"
  proof (cases "map_of ps k")
    case None
    then show ?thesis by simp
  next
    case (Some d)
    then have "(k, d) \<in> set ps" by (rule map_of_SomeD)
    with assms have "distinct (map fst d)"
      by (auto simp: unique_keys_def list_all_iff)
    with Some show ?thesis by simp
  qed
  let ?new = "AList.update heading
      (merge (case map_of ?inner heading of None \<Rightarrow> Hunk_empty | Some g \<Rightarrow> g) h) ?inner"
  have n: "distinct (map fst ?new)"
    using d by (rule AList.distinct_update)
  have "distinct (map fst (snd e))" if "e \<in> set (AList.update k ?new ps)" for e
  proof -
    from that set_update_subset[of k ?new ps] have "e = (k, ?new) \<or> e \<in> set ps" by auto
    then show ?thesis
    proof
      assume "e = (k, ?new)"
      with n show ?thesis by simp
    next
      assume "e \<in> set ps"
      with assms show ?thesis by (simp add: unique_keys_def list_all_iff)
    qed
  qed
  moreover have "distinct (map fst (AList.update k ?new ps))"
    using assms by (simp add: unique_keys_def AList.distinct_update)
  ultimately show ?thesis
    unfolding unique_keys_def store_hunk_def Let_def list_all_iff by blast
qed

lemma unique_keys_store_all: "unique_keys ps \<Longrightarrow> unique_keys (store_all tr ps)"
proof (induction tr arbitrary: ps)
  case Nil
  then show ?case by (simp add: store_all_simps)
next
  case (Cons e tr)
  obtain k heading h where e: "e = (k, heading, h)" by (cases e)
  from Cons show ?case
    unfolding e store_all_simps by (simp add: unique_keys_store_hunk)
qed

text \<open>
  Claim C7. Whenever \<open>parse_diff\<close> returns a Diff for a text that does not start with a
  combined-diff header, no key and no heading occurs twice in its patches, and under
  every key and heading the patches hold the one Hunk whose insertions, deletions and
  context are the concatenations of those of all hunks met with that key and heading, in
  the order in which they were met; a key and heading that no hunk had is absent. So two
  or more hunks with the same heading in the same file segment (or in segments with the
  same two paths) are merged, and none is overwritten or rejected.
\<close>

theorem equal_headings_are_merged:
  assumes "\<not> exclude_cc_match (hd (split_nl text))"
    and "parse_diff text = Inr d"
  shows "\<exists>tr. file_trace (split_nl text) = Inr tr
           \<and> unique_keys (patches d)
           \<and> (\<forall>k heading.
                lookup_hunk (patches d) k heading =
                  (if hunks_at k heading tr = [] then None
                   else Some (concat_hunks (hunks_at k heading tr))))"
proof -
  from assms obtain ps where
    fl: "file_loop [] (split_nl text) = Inr ps"
    and d: "d = Diff_init ps (diff_lines (split_nl text))"
    by (auto simp: parse_diff_def parse_diff_nosplit_def split: sum.splits if_splits)
  from fl obtain tr where
    tr: "file_trace (split_nl text) = Inr tr" and ps: "ps = store_all tr []"
    by (auto simp: file_loop_trace split: sum.splits)
  have "unique_keys []" by (simp add: unique_keys_def)
  then have u: "unique_keys ps"
    unfolding ps by (rule unique_keys_store_all)
  have l: "lookup_hunk ps k heading =
             (if hunks_at k heading tr = [] then None
              else Some (concat_hunks (hunks_at k heading tr)))" for k heading
    unfolding ps lookup_store_all by (simp add: lookup_hunk_def merge_empty)
  from tr u l show ?thesis
    unfolding d by (simp add: Diff_init_def)
qed

text \<open>The header \<open>@@ -1,2 +1,2 @@\<close> twice under \<open>(a/x, b/x)\<close>.\<close>

theorem equal_headings_are_merged_witness:
  "parse_diff (''--- a/x'' @ [newline] @ ''+++ b/x'' @ [newline]
        @ ''@@ -1,2 +1,2 @@'' @ [newline] @ '' c1'' @ [newline] @ ''-d1'' @ [newline]
        @ ''+i1'' @ [newline]
        @ ''@@ -1,2 +1,2 @@'' @ [newline] @ '' c2'' @ [newline] @ ''-d2'' @ [newline]
        @ ''+i2'')
     = Inr \<lparr>patches = [((''a/x'', ''b/x''),
                [([], \<lparr>insertions = [''i1'', ''i2''], deletions = [''d1'', ''d2''],
                       context = [''c1'', ''c2'']\<rparr>)])],
            lines = 56, affected = {''x''}\<rparr>
   \<and> lookup_hunk [((''a/x'', ''b/x''),
                [([], \<lparr>insertions = [''i1'', ''i2''], deletions = [''d1'', ''d2''],
                       context = [''c1'', ''c2'']\<rparr>)])] (''a/x'', ''b/x'') []
     = Some (concat_hunks
              [\<lparr>insertions = [''i1''], deletions = [''d1''], context = [''c1'']\<rparr>,
               \<lparr>insertions = [''i2''], deletions = [''d2''], context = [''c2'']\<rparr>])"
proof -
  let ?t = "''--- a/x'' @ [newline] @ ''+++ b/x'' @ [newline]
        @ ''@@ -1,2 +1,2 @@'' @ [newline] @ '' c1'' @ [newline] @ ''-d1'' @ [newline]
        @ ''+i1'' @ [newline]
        @ ''@@ -1,2 +1,2 @@'' @ [newline] @ '' c2'' @ [newline] @ ''-d2'' @ [newline]
        @ ''+i2''"
  let ?ps = "[((''a/x'', ''b/x''),
                [([], \<lparr>insertions = [''i1'', ''i2''], deletions = [''d1'', ''d2''],
                       context = [''c1'', ''c2'']\<rparr>)])]"
  let ?d = "\<lparr>patches = ?ps, lines = 56, affected = {''x''}\<rparr>"
  have s: "split_nl ?t = [''--- a/x'', ''+++ b/x'', ''@@ -1,2 +1,2 @@'', '' c1'', ''-d1'', ''+i1'',
      ''@@ -1,2 +1,2 @@'', '' c2'', ''-d2'', ''+i2'']"
    by (simp add: newline_def)
  have c: "\<not> exclude_cc_match (hd (split_nl ?t))"
    unfolding s by (simp add: exclude_cc_match_def)
  have p: "parse_diff ?t = Inr ?d"
    unfolding parse_diff_def s by (simp add: parser_defs)
  from equal_headings_are_merged[OF c p] obtain tr where
    tr: "file_trace (split_nl ?t) = Inr tr"
    and l: "\<forall>k heading. lookup_hunk (patches ?d) k heading =
                  (if hunks_at k heading tr = [] then None
                   else Some (concat_hunks (hunks_at k heading tr)))"
    by blast
  have "file_trace (split_nl ?t) =
      Inr [((''a/x'', ''b/x''), [],
              \<lparr>insertions = [''i1''], deletions = [''d1''], context = [''c1'']\<rparr>),
           ((''a/x'', ''b/x''), [],
              \<lparr>insertions = [''i2''], deletions = [''d2''], context = [''c2'']\<rparr>)]"
    unfolding s by (simp add: parser_defs)
  with tr have t: "tr = [((''a/x'', ''b/x''), [],
              \<lparr>insertions = [''i1''], deletions = [''d1''], context = [''c1'']\<rparr>),
           ((''a/x'', ''b/x''), [],
              \<lparr>insertions = [''i2''], deletions = [''d2''], context = [''c2'']\<rparr>)]"
    by simp
  from l[rule_format, of "(''a/x'', ''b/x'')" "[]"] p show ?thesis
    unfolding t by (simp add: hunks_at_def)
qed

end
